theory Spec2Isabelle
  imports Main
begin

section \<open>The argument splitter of \<^verbatim>\<open>arg_split.py\<close>\<close>

text \<open>
  A Python \<^verbatim>\<open>str\<close> is modelled as a \<^typ>\<open>string\<close>; an index into it is a \<^typ>\<open>nat\<close>
  (every index the splitter computes is non-negative; the source's guard
  \<^verbatim>\<open>i - 1 >= 0\<close> becomes \<open>1 \<le> i\<close>). \<^verbatim>\<open>begin_word\<close> is \<^verbatim>\<open>None\<close> or an index:
  a \<^typ>\<open>nat option\<close>. The result of \<^verbatim>\<open>str.find\<close> is an index or \<^verbatim>\<open>-1\<close>: again a
  \<^typ>\<open>nat option\<close>, with \<open>None\<close> for \<^verbatim>\<open>-1\<close>. A character is a \<^typ>\<open>char\<close>, so the model
  covers the strings of code points below 256. \<^verbatim>\<open>_accept_space_char\<close> is called nowhere
  in the source and has no counterpart here.
\<close>

subsection \<open>Characters\<close>

definition dquote :: char where
  "dquote = CHR 0x22"

definition backslash :: char where
  "backslash = CHR 0x5C"

text \<open>
  \<^verbatim>\<open>str.isspace\<close> on one character: the code points below 256 that Python classifies as
  whitespace (TAB, LF, VT, FF, CR, FS, GS, RS, US, SPACE, NEL, NBSP).
\<close>

definition isspace :: "char \<Rightarrow> bool" where
  "isspace c \<longleftrightarrow> c \<in> set [CHR 0x09, CHR 0x0A, CHR 0x0B, CHR 0x0C, CHR 0x0D,
                          CHR 0x1C, CHR 0x1D, CHR 0x1E, CHR 0x1F, CHR 0x20,
                          CHR 0x85, CHR 0xA0]"

subsection \<open>Exceptions\<close>

text \<open>
  The source raises three exception classes, each with a formatted message. The message
  of every raise site is kept as a constructor holding the values the message is formatted
  from.
\<close>

datatype quote_message =
    SpaceMustFollow    \<comment> \<open>\<^verbatim>\<open>A space must follow quotes before beginning the next word.\<close>\<close>
  | NotClosed          \<comment> \<open>\<^verbatim>\<open>Quote was not closed.\<close>\<close>

datatype escape_message =
    CannotEscape char nat   \<comment> \<open>\<^verbatim>\<open>Cannot escape {next_char} character index {begin + next_idx}\<close>\<close>
  | InvalidCharacter nat    \<comment> \<open>\<^verbatim>\<open>Invalid character "\" at index {begin + backslash_loc}\<close>\<close>

datatype error =
    InvalidAcceptError char nat
      \<comment> \<open>\<^verbatim>\<open>Expected a valid word character, found "{string[i]}" at index {i}.\<close>\<close>
  | QuoteError quote_message
  | EscapeError escape_message

datatype State = SPACE | WORD | QUOTES

subsection \<open>Accepting a word character\<close>

definition accept_word_char :: "string \<Rightarrow> nat \<Rightarrow> error + nat" where
  "accept_word_char string i =
     (if isspace (string ! i) \<or>
         (string ! i = dquote \<and> \<not> (1 \<le> i \<and> string ! (i - 1) = backslash))
      then Inl (InvalidAcceptError (string ! i) i)
      else Inr (i + 1))"

subsection \<open>Decoding a raw span\<close>

text \<open>\<^verbatim>\<open>string[begin:end]\<close> for non-negative bounds.\<close>

definition slice :: "string \<Rightarrow> nat \<Rightarrow> nat \<Rightarrow> string" where
  "slice string begin end = drop begin (take end string)"

text \<open>\<^verbatim>\<open>word.find(c)\<close>: the lowest index holding \<open>c\<close>.\<close>

primrec index_of :: "char \<Rightarrow> string \<Rightarrow> nat option" where
  "index_of c [] = None"
| "index_of c (x # xs) = (if x = c then Some 0 else map_option Suc (index_of c xs))"

text \<open>\<^verbatim>\<open>word.find(c, start)\<close>: the lowest index from \<open>start\<close> on holding \<open>c\<close>.\<close>

definition str_find :: "string \<Rightarrow> char \<Rightarrow> nat \<Rightarrow> nat option" where
  "str_find word c start = map_option (\<lambda>j. j + start) (index_of c (drop start word))"

text \<open>\<^verbatim>\<open>word[:backslash_loc] + word[backslash_loc + 1:]\<close>\<close>

definition cut_at :: "string \<Rightarrow> nat \<Rightarrow> string" where
  "cut_at word backslash_loc = take backslash_loc word @ drop (backslash_loc + 1) word"

text \<open>
  The \<^verbatim>\<open>while backslash_loc != -1\<close> loop of \<^verbatim>\<open>_make_word\<close>, on the loop variables
  \<^verbatim>\<open>word\<close> and \<^verbatim>\<open>backslash_loc\<close>.
\<close>

function make_word_loop :: "nat \<Rightarrow> string \<Rightarrow> nat option \<Rightarrow> error + string" where
  "make_word_loop begin word None = Inr word"
| "make_word_loop begin word (Some backslash_loc) =
     (let next_idx = backslash_loc + 1 in
      if next_idx < length word then
        let next_char = word ! next_idx in
        if next_char = backslash then
          make_word_loop begin (cut_at word backslash_loc)
            (str_find (cut_at word backslash_loc) backslash (backslash_loc + 1))
        else if next_char = dquote then
          make_word_loop begin (cut_at word backslash_loc)
            (str_find (cut_at word backslash_loc) backslash backslash_loc)
        else Inl (EscapeError (CannotEscape next_char (begin + next_idx)))
      else Inl (EscapeError (InvalidCharacter (begin + backslash_loc))))"
  by pat_completeness auto
termination
proof (relation "measure (\<lambda>(begin, word, loc). length word)")
  show "wf (measure (\<lambda>(begin :: nat, word :: string, loc :: nat option). length word))"
    by simp
qed (auto simp: cut_at_def)

definition make_word :: "string \<Rightarrow> nat \<Rightarrow> nat \<Rightarrow> error + string" where
  "make_word string begin end =
     make_word_loop begin (slice string begin end) (str_find (slice string begin end) backslash 0)"

subsection \<open>The three states\<close>

definition process_space_state :: "string \<Rightarrow> nat \<Rightarrow> State \<times> nat" where
  "process_space_state string i =
     (if string ! i = dquote then (QUOTES, i + 1)
      else if \<not> isspace (string ! i) then (WORD, i)
      else (SPACE, i + 1))"

text \<open>
  \<^verbatim>\<open>result\<close> is a list the source appends to in place; the model passes it in and returns
  it with the new state, index and \<^verbatim>\<open>begin_word\<close>.
\<close>

type_synonym config = "State \<times> nat \<times> nat option \<times> string list"

definition process_word_state ::
  "string \<Rightarrow> nat \<Rightarrow> nat option \<Rightarrow> string list \<Rightarrow> error + config" where
  "process_word_state string i begin_word result =
     (case begin_word of
        None \<Rightarrow>
          (case accept_word_char string i of
             Inl e \<Rightarrow> Inl e
           | Inr i' \<Rightarrow> Inr (WORD, i', Some i, result))
      | Some b \<Rightarrow>
          if isspace (string ! i) then
            (case make_word string b i of
               Inl e \<Rightarrow> Inl e
             | Inr word \<Rightarrow> Inr (SPACE, i, None, result @ [word]))
          else
            (case accept_word_char string i of
               Inl e \<Rightarrow> Inl e
             | Inr i' \<Rightarrow> Inr (WORD, i', Some b, result)))"

definition process_quote_state ::
  "string \<Rightarrow> nat \<Rightarrow> nat option \<Rightarrow> string list \<Rightarrow> error + config" where
  "process_quote_state string i begin_word result =
     (case begin_word of
        None \<Rightarrow>
          if string ! i = dquote then
            (let next_idx = i + 1 in
             if next_idx < length string \<and> \<not> isspace (string ! next_idx)
             then Inl (QuoteError SpaceMustFollow)
             else Inr (SPACE, i + 1, None, result @ [[]]))
          else Inr (QUOTES, i + 1, Some i, result)
      | Some b \<Rightarrow>
          if string ! i = dquote \<and> \<not> (1 \<le> i \<and> string ! (i - 1) = backslash) then
            (case make_word string b i of
               Inl e \<Rightarrow> Inl e
             | Inr word \<Rightarrow>
                 (let next_idx = i + 1 in
                  if next_idx < length string \<and> \<not> isspace (string ! next_idx)
                  then Inl (QuoteError SpaceMustFollow)
                  else Inr (SPACE, i + 1, None, result @ [word])))
          else Inr (QUOTES, i + 1, Some b, result))"

subsection \<open>The scan loop and \<^verbatim>\<open>split\<close>\<close>

text \<open>One iteration of the \<^verbatim>\<open>while\<close> loop: dispatch on the state.\<close>

fun step :: "string \<Rightarrow> config \<Rightarrow> error + config" where
  "step string (SPACE, i, begin_word, result) =
     (case process_space_state string i of (state', i') \<Rightarrow> Inr (state', i', begin_word, result))"
| "step string (WORD, i, begin_word, result) = process_word_state string i begin_word result"
| "step string (QUOTES, i, begin_word, result) = process_quote_state string i begin_word result"

text \<open>
  The measure of the loop. Two steps leave the index where it is: \<^verbatim>\<open>SPACE\<close> handing a
  word character to \<^verbatim>\<open>WORD\<close>, and \<^verbatim>\<open>WORD\<close> handing the whitespace that ends a word
  to \<^verbatim>\<open>SPACE\<close>. Which of the two can happen at an index is decided by the character
  there, so the measure counts two for every index still ahead and one more for the state
  that may still hand over at the current index. It depends on the state and the index only.
\<close>

definition loop_measure :: "string \<times> config \<Rightarrow> nat" where
  "loop_measure = (\<lambda>(string, state, i, begin_word, result).
     2 * (length string - i) +
     (if (state = SPACE \<and> \<not> isspace (string ! i)) \<or> (state = WORD \<and> isspace (string ! i))
      then 1 else 0))"

text \<open>The \<^verbatim>\<open>while i < len(string)\<close> loop, from any loop state.\<close>

function split_loop :: "string \<Rightarrow> config \<Rightarrow> error + config" where
  "split_loop string (state, i, begin_word, result) =
     (if i < length string then
        (case step string (state, i, begin_word, result) of
           Inl e \<Rightarrow> Inl e
         | Inr c' \<Rightarrow> split_loop string c')
      else Inr (state, i, begin_word, result))"
  by pat_completeness auto
termination
proof (relation "measure loop_measure")
  show "wf (measure loop_measure)"
    by simp
next
  fix string :: string and state i begin_word and result :: "string list" and c' :: config
  assume "i < length string" and "step string (state, i, begin_word, result) = Inr c'"
  then show "((string, c'), (string, state, i, begin_word, result)) \<in> measure loop_measure"
    by (cases state)
      (auto simp: loop_measure_def process_space_state_def process_word_state_def
        process_quote_state_def accept_word_char_def Let_def
        split: if_splits option.splits sum.splits)
qed

text \<open>The loop states at the top of the loop, in order, up to the exit or the raise.\<close>

function split_trace :: "string \<Rightarrow> config \<Rightarrow> config list" where
  "split_trace string (state, i, begin_word, result) =
     (if i < length string then
        (state, i, begin_word, result) #
        (case step string (state, i, begin_word, result) of
           Inl e \<Rightarrow> []
         | Inr c' \<Rightarrow> split_trace string c')
      else [(state, i, begin_word, result)])"
  by pat_completeness auto
termination
proof (relation "measure loop_measure")
  show "wf (measure loop_measure)"
    by simp
next
  fix string :: string and state i begin_word and result :: "string list" and c' :: config
  assume "i < length string" and "step string (state, i, begin_word, result) = Inr c'"
  then show "((string, c'), (string, state, i, begin_word, result)) \<in> measure loop_measure"
    by (cases state)
      (auto simp: loop_measure_def process_space_state_def process_word_state_def
        process_quote_state_def accept_word_char_def Let_def
        split: if_splits option.splits sum.splits)
qed

text \<open>What \<^verbatim>\<open>split\<close> does after the loop.\<close>

fun finish :: "string \<Rightarrow> config \<Rightarrow> error + string list" where
  "finish string (state, i, begin_word, result) =
     (if state = QUOTES then Inl (QuoteError NotClosed)
      else
        (case begin_word of
           None \<Rightarrow> Inr result
         | Some b \<Rightarrow>
             (case make_word string b i of
                Inl e \<Rightarrow> Inl e
              | Inr word \<Rightarrow> Inr (result @ [word]))))"

definition initial :: config where
  "initial = (SPACE, 0, None, [])"

definition split :: "string \<Rightarrow> error + string list" where
  "split string =
     (case split_loop string initial of
        Inl e \<Rightarrow> Inl e
      | Inr c \<Rightarrow> finish string c)"

subsection \<open>Notions the properties are stated with\<close>

text \<open>
  The decode step as the specification words it: a left-to-right scan in which
  backslash-backslash gives one backslash, backslash-quote gives one quote, a backslash before
  any other character is an illegal escape, a backslash at the end is a dangling escape, and
  every other character is copied. The error kinds carry no position here.
\<close>

datatype escape_kind = IllegalEscape char | DanglingEscape

fun unescape :: "string \<Rightarrow> escape_kind + string" where
  "unescape [] = Inr []"
| "unescape (c # rest) =
     (if c = backslash then
        (case rest of
           [] \<Rightarrow> Inl DanglingEscape
         | d # rest' \<Rightarrow>
             if d = backslash then map_sum id ((#) backslash) (unescape rest')
             else if d = dquote then map_sum id ((#) dquote) (unescape rest')
             else Inl (IllegalEscape d))
      else map_sum id ((#) c) (unescape rest))"

text \<open>The kind of an \<^verbatim>\<open>EscapeError\<close>, without its position.\<close>

fun escape_kind_of :: "error \<Rightarrow> escape_kind option" where
  "escape_kind_of (EscapeError (CannotEscape c n)) = Some (IllegalEscape c)"
| "escape_kind_of (EscapeError (InvalidCharacter n)) = Some DanglingEscape"
| "escape_kind_of (InvalidAcceptError c n) = None"
| "escape_kind_of (QuoteError m) = None"

text \<open>An error whose reported index is moved \<open>k\<close> characters to the right.\<close>

fun shift_error :: "nat \<Rightarrow> error \<Rightarrow> error" where
  "shift_error k (InvalidAcceptError c n) = InvalidAcceptError c (k + n)"
| "shift_error k (QuoteError m) = QuoteError m"
| "shift_error k (EscapeError (CannotEscape c n)) = EscapeError (CannotEscape c (k + n))"
| "shift_error k (EscapeError (InvalidCharacter n)) = EscapeError (InvalidCharacter (k + n))"

text \<open>\<^verbatim>\<open>' '.join(words)\<close>\<close>

fun join_words :: "string list \<Rightarrow> string" where
  "join_words [] = []"
| "join_words [w] = w"
| "join_words (w # ws) = w @ CHR '' '' # join_words ws"

text \<open>A character that is neither whitespace, nor a quote, nor a backslash.\<close>

definition plain_char :: "char \<Rightarrow> bool" where
  "plain_char c \<longleftrightarrow> \<not> isspace c \<and> c \<noteq> dquote \<and> c \<noteq> backslash"

text \<open>The fields of a loop state.\<close>

fun state_of :: "config \<Rightarrow> State" where
  "state_of (state, i, begin_word, result) = state"

fun index_of_config :: "config \<Rightarrow> nat" where
  "index_of_config (state, i, begin_word, result) = i"

fun begin_word_of :: "config \<Rightarrow> nat option" where
  "begin_word_of (state, i, begin_word, result) = begin_word"

fun result_of :: "config \<Rightarrow> string list" where
  "result_of (state, i, begin_word, result) = result"

subsection \<open>Notions the proofs use\<close>

text \<open>
  The loop states the scan can be in: the index is within the input, a \<^verbatim>\<open>begin_word\<close>
  that is set lies before the index and is never set in \<^verbatim>\<open>SPACE\<close>, and \<^verbatim>\<open>WORD\<close> with no
  \<^verbatim>\<open>begin_word\<close> stands on the word character \<^verbatim>\<open>SPACE\<close> handed over.
\<close>

fun wf_config :: "string \<Rightarrow> config \<Rightarrow> bool" where
  "wf_config string (state, i, begin_word, result) =
     (i \<le> length string \<and>
      (case begin_word of
         None \<Rightarrow> state = WORD \<longrightarrow> i < length string \<and> \<not> isspace (string ! i) \<and> string ! i \<noteq> dquote
       | Some b \<Rightarrow> state \<noteq> SPACE \<and> b < i))"

text \<open>A loop state seen from a string with \<open>k\<close> more characters in front and the words \<open>r0\<close> already found.\<close>

fun shift_config :: "nat \<Rightarrow> string list \<Rightarrow> config \<Rightarrow> config" where
  "shift_config k r0 (state, i, begin_word, result) =
     (state, k + i, map_option ((+) k) begin_word, r0 @ result)"

text \<open>\<^verbatim>\<open>split\<close> from any loop state: the rest of the loop, then what follows the loop.\<close>

definition split_from :: "string \<Rightarrow> config \<Rightarrow> error + string list" where
  "split_from string c =
     (case split_loop string c of Inl e \<Rightarrow> Inl e | Inr c' \<Rightarrow> finish string c')"

section \<open>Properties\<close>

subsection \<open>The error of each malformed input\<close>

lemma split_unterminated:
  "split (''the quick '' @ [dquote] @ ''brown fox'') = Inl (QuoteError NotClosed)"
  by code_simp

lemma split_quote_in_word:
  "split (''the qu'' @ [dquote] @ ''ck brown fox'') = Inl (InvalidAcceptError dquote 6)"
  by code_simp

lemma split_no_space_after_quote:
  "split (''the quick '' @ [dquote] @ ''brown'' @ [dquote] @ ''fox'')
   = Inl (QuoteError SpaceMustFollow)"
  by code_simp

lemma split_illegal_escape:
  "split (''the '' @ [backslash] @ ''quick brown fox'')
   = Inl (EscapeError (CannotEscape CHR ''q'' 5))"
  by code_simp

lemma split_dangling_escape:
  "split (''the quick brown fox'' @ [backslash]) = Inl (EscapeError (InvalidCharacter 19))"
  by code_simp

text \<open>
  Claim C2. Each of the five malformed inputs of the specification fails with its own error:
  an unclosed quote with \<^verbatim>\<open>QuoteError\<close> "Quote was not closed." (UnterminatedQuote), a quote
  inside a bare word with \<^verbatim>\<open>InvalidAcceptError\<close> for the quote at index 6
  (UnexpectedQuoteInWord), a closing quote followed by a letter with \<^verbatim>\<open>QuoteError\<close>
  "A space must follow quotes ..." (MissingSpaceAfterQuote), a backslash before \<open>q\<close> with
  \<^verbatim>\<open>EscapeError\<close> "Cannot escape q character index 5" (IllegalEscape), and a backslash at
  the end with \<^verbatim>\<open>EscapeError\<close> "Invalid character \ at index 19" (DanglingEscape). The
  five errors are pairwise different. Two pairs share their exception class and differ in
  their message.
\<close>

theorem split_error_kinds:
  "split (''the quick '' @ [dquote] @ ''brown fox'') = Inl (QuoteError NotClosed) \<and>
   split (''the qu'' @ [dquote] @ ''ck brown fox'') = Inl (InvalidAcceptError dquote 6) \<and>
   split (''the quick '' @ [dquote] @ ''brown'' @ [dquote] @ ''fox'')
     = Inl (QuoteError SpaceMustFollow) \<and>
   split (''the '' @ [backslash] @ ''quick brown fox'')
     = Inl (EscapeError (CannotEscape CHR ''q'' 5)) \<and>
   split (''the quick brown fox'' @ [backslash]) = Inl (EscapeError (InvalidCharacter 19)) \<and>
   distinct [QuoteError NotClosed, InvalidAcceptError dquote 6, QuoteError SpaceMustFollow,
             EscapeError (CannotEscape CHR ''q'' 5), EscapeError (InvalidCharacter 19)]"
  using split_unterminated split_quote_in_word split_no_space_after_quote
    split_illegal_escape split_dangling_escape
  by simp

subsection \<open>Quoted tokens\<close>

lemma split_quote_grouping:
  "split (''the quick '' @ [dquote] @ ''brown fox'' @ [dquote])
   = Inr [''the'', ''quick'', ''brown fox'']"
  by code_simp

lemma split_empty_middle:
  "split (''the '' @ [dquote, dquote] @ '' quick'') = Inr [''the'', [], ''quick'']"
  by code_simp

lemma split_empty_begin:
  "split ([dquote, dquote] @ '' the quick brown fox'')
   = Inr [[], ''the'', ''quick'', ''brown'', ''fox'']"
  by code_simp

lemma split_empty_end:
  "split (''the quick brown fox '' @ [dquote, dquote])
   = Inr [''the'', ''quick'', ''brown'', ''fox'', []]"
  by code_simp

lemma split_empty_only:
  "split [dquote, dquote] = Inr [[]]"
  by code_simp

text \<open>
  Claim C7. A quoted region becomes one word, and an empty pair of quotes gives an empty
  word: in the middle of the input, at its start, at its end, and as the whole input.
\<close>

theorem split_quoted_tokens:
  "split (''the quick '' @ [dquote] @ ''brown fox'' @ [dquote])
     = Inr [''the'', ''quick'', ''brown fox''] \<and>
   split (''the '' @ [dquote, dquote] @ '' quick'') = Inr [''the'', [], ''quick''] \<and>
   split ([dquote, dquote] @ '' the quick brown fox'')
     = Inr [[], ''the'', ''quick'', ''brown'', ''fox''] \<and>
   split (''the quick brown fox '' @ [dquote, dquote])
     = Inr [''the'', ''quick'', ''brown'', ''fox'', []] \<and>
   split [dquote, dquote] = Inr [[]]"
  using split_quote_grouping split_empty_middle split_empty_begin split_empty_end
    split_empty_only
  by simp

subsection \<open>The index in an escape error\<close>

lemma split_collapsed_illegal:
  "split ([backslash, backslash, backslash] @ ''q'')
   = Inl (EscapeError (CannotEscape CHR ''q'' 2))"
  by code_simp

lemma split_collapsed_dangling:
  "split [backslash, backslash, backslash] = Inl (EscapeError (InvalidCharacter 1))"
  by code_simp

text \<open>
  Claim C1. The index in an escape error is \<^verbatim>\<open>begin\<close> plus an index into \<^verbatim>\<open>word\<close>, and
  \<^verbatim>\<open>word\<close> has lost one character for every escape pair decoded before. After one
  decoded pair the reported index is one too small: for three backslashes and a \<open>q\<close>
  the error names index 2, where the input holds a backslash, and the \<open>q\<close> is at
  index 3; for three backslashes the error names index 1, and the dangling backslash is
  at index 2.
\<close>

theorem escape_index_after_decoded_pair:
  "split ([backslash, backslash, backslash] @ ''q'')
     = Inl (EscapeError (CannotEscape CHR ''q'' 2)) \<and>
   ([backslash, backslash, backslash] @ ''q'') ! 2 = backslash \<and>
   ([backslash, backslash, backslash] @ ''q'') ! 3 = CHR ''q'' \<and>
   split [backslash, backslash, backslash] = Inl (EscapeError (InvalidCharacter 1)) \<and>
   length [backslash, backslash, backslash] - 1 = 2"
  using split_collapsed_illegal split_collapsed_dangling
  by simp

subsection \<open>Quotes after a backslash\<close>

lemma split_escaped_pair_then_quote:
  "split (''qu'' @ [backslash, backslash, dquote]) = Inr [''qu'' @ [backslash, dquote]]"
  by code_simp

text \<open>
  Claim C10. In a bare word a quote is accepted whenever the character just before it is a
  backslash: \<^verbatim>\<open>_accept_word_char\<close> returns the next index and the word goes on. This holds
  also when that backslash is the second one of an escaped pair: the five characters
  \<open>q\<close>, \<open>u\<close>, backslash, backslash, quote split into the one
  four-character word \<open>q\<close>, \<open>u\<close>, backslash, quote.
\<close>

theorem quote_after_backslash_in_word:
  "(1 \<le> i \<and> string ! i = dquote \<and> string ! (i - 1) = backslash \<longrightarrow>
      accept_word_char string i = Inr (i + 1) \<and>
      process_word_state string i (Some b) result = Inr (WORD, i + 1, Some b, result)) \<and>
   length (''qu'' @ [backslash, backslash, dquote]) = 5 \<and>
   split (''qu'' @ [backslash, backslash, dquote]) = Inr [''qu'' @ [backslash, dquote]] \<and>
   length (''qu'' @ [backslash, dquote]) = 4"
  using split_escaped_pair_then_quote
  by (auto simp: accept_word_char_def process_word_state_def isspace_def dquote_def)

theorem quote_after_backslash_in_word_witness:
  "1 \<le> (4::nat) \<and> (''qu'' @ [backslash, backslash, dquote]) ! 4 = dquote \<and>
   (''qu'' @ [backslash, backslash, dquote]) ! (4 - 1) = backslash \<and>
   accept_word_char (''qu'' @ [backslash, backslash, dquote]) 4 = Inr 5 \<and>
   process_word_state (''qu'' @ [backslash, backslash, dquote]) 4 (Some 0) [] = Inr (WORD, 5, Some 0, [])"
  using quote_after_backslash_in_word [of 4 "''qu'' @ [backslash, backslash, dquote]" 0 "[]"]
  by simp

lemma split_escaped_backslash_before_closing_quote:
  "split ([dquote] @ ''a'' @ [backslash, backslash, dquote]) = Inl (QuoteError NotClosed)"
  by code_simp

lemma split_escaped_quote_end_in_quote:
  "split (''the quick '' @ [dquote] @ ''brown fox'' @ [backslash, dquote, dquote])
   = Inr [''the'', ''quick'', ''brown fox'' @ [dquote]]"
  by code_simp

text \<open>
  Claim C4. In \<^verbatim>\<open>QUOTES\<close> with an open span, at a quote character, the scan stays inside
  the quoted region exactly when the character just before is a backslash; otherwise the
  region ends there. Only that one character is looked at: a quote after an escaped
  backslash pair does not close the region (the input quote, \<open>a\<close>, backslash,
  backslash, quote is an unclosed quote). The input \<^verbatim>\<open>the quick "brown fox\""\<close> splits
  into \<open>the\<close>, \<open>quick\<close> and \<open>brown fox\<close> followed by a quote.
\<close>

theorem quote_closes_on_single_lookback:
  "(string ! i = dquote \<longrightarrow>
      ((\<exists>c. process_quote_state string i (Some b) result = Inr c \<and> state_of c = QUOTES)
        \<longleftrightarrow> 1 \<le> i \<and> string ! (i - 1) = backslash) \<and>
      (1 \<le> i \<and> string ! (i - 1) = backslash \<longrightarrow>
         process_quote_state string i (Some b) result = Inr (QUOTES, i + 1, Some b, result))) \<and>
   split ([dquote] @ ''a'' @ [backslash, backslash, dquote]) = Inl (QuoteError NotClosed) \<and>
   split (''the quick '' @ [dquote] @ ''brown fox'' @ [backslash, dquote, dquote])
     = Inr [''the'', ''quick'', ''brown fox'' @ [dquote]]"
  using split_escaped_backslash_before_closing_quote split_escaped_quote_end_in_quote
  by (auto simp: process_quote_state_def Let_def split: sum.splits)

theorem quote_closes_on_single_lookback_witness:
  "(''x'' @ [dquote, backslash, dquote]) ! 3 = dquote \<and>
   (''x'' @ [dquote, backslash, dquote]) ! (3 - 1) = backslash \<and>
   process_quote_state (''x'' @ [dquote, backslash, dquote]) 3 (Some 2) [] = Inr (QUOTES, 4, Some 2, []) \<and>
   ([dquote] @ ''ab'' @ [dquote]) ! 3 = dquote \<and>
   \<not> (\<exists>c. process_quote_state ([dquote] @ ''ab'' @ [dquote]) 3 (Some 1) [] = Inr c \<and> state_of c = QUOTES)"
  using quote_closes_on_single_lookback [of "''x'' @ [dquote, backslash, dquote]" 3 2 "[]"]
    quote_closes_on_single_lookback [of "[dquote] @ ''ab'' @ [dquote]" 3 1 "[]"]
  by (simp add: backslash_def)

subsection \<open>The decode step\<close>

declare make_word_loop.simps [simp del] split_loop.simps [simp del] split_trace.simps [simp del]

lemma index_of_append_skip:
  "x \<noteq> c \<Longrightarrow> str_find (pre @ x # r) c (length pre) = str_find ((pre @ [x]) @ r) c (length (pre @ [x]))"
  by (simp add: str_find_def option.map_comp comp_def)

lemma str_find_here:
  "str_find (pre @ c # r) c (length pre) = Some (length pre)"
  by (simp add: str_find_def)

lemma str_find_end:
  "str_find pre c (length pre) = None"
  by (simp add: str_find_def)

lemma cut_at_here:
  "cut_at (pre @ x # r) (length pre) = pre @ r"
  by (simp add: cut_at_def)

lemma make_word_loop_unescape:
  "map_sum escape_kind_of id
     (make_word_loop begin (pre @ rest) (str_find (pre @ rest) backslash (length pre)))
   = map_sum Some ((@) pre) (unescape rest)"
proof (induction rest arbitrary: pre rule: unescape.induct)
  case 1
  show ?case by (simp add: str_find_end make_word_loop.simps)
next
  case (2 c rest)
  show ?case
  proof (cases "c = backslash")
    case False
    have "map_sum escape_kind_of id
            (make_word_loop begin ((pre @ [c]) @ rest)
               (str_find ((pre @ [c]) @ rest) backslash (length (pre @ [c]))))
          = map_sum Some ((@) (pre @ [c])) (unescape rest)"
      using False by (rule "2.IH"(3))
    then show ?thesis
      using False index_of_append_skip [of c backslash pre rest]
      by (cases "unescape rest") (simp_all add: id_def)
  next
    case True
    note c = True
    show ?thesis
    proof (cases rest)
      case Nil
      then show ?thesis
        using c by (simp add: str_find_here make_word_loop.simps)
    next
      case (Cons d rest')
      have nth: "(pre @ backslash # d # rest') ! Suc (length pre) = d"
        by (simp add: nth_append)
      consider "d = backslash" | "d \<noteq> backslash" "d = dquote" | "d \<noteq> backslash" "d \<noteq> dquote"
        by blast
      then show ?thesis
      proof cases
        case 1
        have "map_sum escape_kind_of id
            (make_word_loop begin ((pre @ [backslash]) @ rest')
               (str_find ((pre @ [backslash]) @ rest') backslash (length (pre @ [backslash]))))
          = map_sum Some ((@) (pre @ [backslash])) (unescape rest')"
          using c Cons 1 by (rule "2.IH"(1))
        then show ?thesis
          using c Cons 1 nth
          by (cases "unescape rest'") (simp_all add: str_find_here make_word_loop.simps cut_at_here id_def)
      next
        case 2
        have "map_sum escape_kind_of id
            (make_word_loop begin ((pre @ [dquote]) @ rest')
               (str_find ((pre @ [dquote]) @ rest') backslash (length (pre @ [dquote]))))
          = map_sum Some ((@) (pre @ [dquote])) (unescape rest')"
          using c Cons 2 by (rule "2.IH"(2))
        then show ?thesis
          using c Cons 2 nth index_of_append_skip [of dquote backslash pre rest']
          by (cases "unescape rest'") (simp_all add: str_find_here make_word_loop.simps cut_at_here id_def)
      next
        case 3
        then show ?thesis
          using c Cons nth
          by (simp add: str_find_here make_word_loop.simps)
      qed
    qed
  qed
qed

lemma make_word_unescape:
  "map_sum escape_kind_of id (make_word string begin end)
   = map_sum Some id (unescape (slice string begin end))"
  using make_word_loop_unescape [of "begin" "[]" "slice string begin end"]
  by (cases "unescape (slice string begin end)") (simp_all add: make_word_def id_def)

lemma make_word_ok_iff:
  "make_word string b e = Inr w \<longleftrightarrow> unescape (slice string b e) = Inr w"
  using make_word_unescape [of string b e]
  by (cases "make_word string b e"; cases "unescape (slice string b e)") auto

lemma step_emits_unescaped:
  assumes "step string (state, i, begin_word, result) = Inr c'"
  shows "result_of c' = result \<or>
         (\<exists>w. result_of c' = result @ [w] \<and>
              unescape (slice string (case begin_word of None \<Rightarrow> i | Some j \<Rightarrow> j) i) = Inr w)"
  using assms
  by (cases state)
    (auto simp: process_space_state_def process_word_state_def process_quote_state_def
      make_word_ok_iff slice_def Let_def
      split: if_splits option.splits sum.splits)

lemma finish_emits_unescaped:
  assumes "finish string (state, i, begin_word, result) = Inr result'"
  shows "result' = result \<or>
         (\<exists>w. result' = result @ [w] \<and>
              unescape (slice string (case begin_word of None \<Rightarrow> i | Some j \<Rightarrow> j) i) = Inr w)"
  using assms
  by (auto simp: make_word_ok_iff split: if_splits option.splits sum.splits)

text \<open>
  Claim C3. \<^verbatim>\<open>_make_word\<close> on a span computes the left-to-right decoding \<open>unescape\<close>
  of the slice: the same word when the decoding succeeds, and an \<^verbatim>\<open>EscapeError\<close> of the
  same kind (illegal escape with its character, or dangling escape) when it fails. Every
  word a step of the loop or the code after the loop appends is such a decoding of a slice
  that ends at the current index, for bare words and quoted bodies alike (the empty word of
  an empty pair of quotes is the decoding of the empty slice).
\<close>

theorem make_word_unescapes:
  "map_sum escape_kind_of id (make_word string b e)
     = map_sum Some id (unescape (slice string b e)) \<and>
   (step string (state, i, begin_word, result) = Inr c' \<longrightarrow>
      result_of c' = result \<or>
      (\<exists>w. result_of c' = result @ [w] \<and>
           unescape (slice string (case begin_word of None \<Rightarrow> i | Some j \<Rightarrow> j) i) = Inr w)) \<and>
   (finish string (state, i, begin_word, result) = Inr result' \<longrightarrow>
      result' = result \<or>
      (\<exists>w. result' = result @ [w] \<and>
           unescape (slice string (case begin_word of None \<Rightarrow> i | Some j \<Rightarrow> j) i) = Inr w))"
  using make_word_unescape step_emits_unescaped finish_emits_unescaped
  by blast

theorem make_word_unescapes_witness:
  "step (''a'' @ [backslash, dquote] @ '' b'') (WORD, 3, Some 0, []) = Inr (SPACE, 3, None, [''a'' @ [dquote]]) \<and>
   unescape (slice (''a'' @ [backslash, dquote] @ '' b'') 0 3) = Inr (''a'' @ [dquote]) \<and>
   finish (''a'' @ [backslash, dquote] @ '' b'') (WORD, 5, Some 4, [''a'' @ [dquote]])
     = Inr [''a'' @ [dquote], ''b''] \<and>
   unescape (slice (''a'' @ [backslash, dquote] @ '' b'') 4 5) = Inr ''b''"
proof -
  have st: "step (''a'' @ [backslash, dquote] @ '' b'') (WORD, 3, Some 0, [])
            = Inr (SPACE, 3, None, [''a'' @ [dquote]])"
    by code_simp
  have fin: "finish (''a'' @ [backslash, dquote] @ '' b'') (WORD, 5, Some 4, [''a'' @ [dquote]])
             = Inr [''a'' @ [dquote], ''b'']"
    by code_simp
  show ?thesis
    using st fin
      make_word_unescapes [where string = "''a'' @ [backslash, dquote] @ '' b''"
        and b = 0 and e = 3 and state = WORD and i = 3 and begin_word = "Some 0"
        and result = "[]" and c' = "(SPACE, 3, None, [''a'' @ [dquote]])"]
      make_word_unescapes [where string = "''a'' @ [backslash, dquote] @ '' b''"
        and state = WORD and i = 5 and begin_word = "Some 4"
        and result = "[''a'' @ [dquote]]" and result' = "[''a'' @ [dquote], ''b'']"]
    by simp
qed

subsection \<open>Steps of the loop\<close>

lemma isspace_not_dquote [simp]: "isspace c \<Longrightarrow> c \<noteq> dquote"
  by (auto simp: isspace_def dquote_def)

lemma isspace_not_backslash [simp]: "isspace c \<Longrightarrow> c \<noteq> backslash"
  by (auto simp: isspace_def backslash_def)

lemma step_decreases:
  "i < length string \<Longrightarrow> step string (state, i, begin_word, result) = Inr c' \<Longrightarrow>
   loop_measure (string, c') < loop_measure (string, state, i, begin_word, result)"
  by (cases state)
    (auto simp: loop_measure_def process_space_state_def process_word_state_def
      process_quote_state_def accept_word_char_def Let_def
      split: if_splits option.splits sum.splits)

lemma step_index_mono:
  "step string (state, i, begin_word, result) = Inr c' \<Longrightarrow> i \<le> index_of_config c'"
  by (cases state)
    (auto simp: process_space_state_def process_word_state_def
      process_quote_state_def accept_word_char_def Let_def
      split: if_splits option.splits sum.splits)

lemma step_wf:
  "wf_config string (state, i, begin_word, result) \<Longrightarrow> i < length string \<Longrightarrow>
   step string (state, i, begin_word, result) = Inr c' \<Longrightarrow> wf_config string c'"
  by (cases state)
    (auto simp: process_space_state_def process_word_state_def
      process_quote_state_def accept_word_char_def Let_def
      split: if_splits option.splits sum.splits)

lemma wf_initial: "wf_config string initial"
  by (simp add: initial_def)

lemma slice_prefix: "e \<le> length a \<Longrightarrow> slice (a @ y) b e = slice a b e"
  by (simp add: slice_def)

lemma make_word_prefix: "e \<le> length a \<Longrightarrow> make_word (a @ y) b e = make_word a b e"
  by (simp add: make_word_def slice_prefix)

lemma step_prefix:
  assumes "i < length a" and "y = [] \<or> isspace (hd y)"
  shows "step (a @ y) (state, i, begin_word, result) = step a (state, i, begin_word, result)"
proof -
  have cur: "(a @ y) ! i = a ! i"
    using assms(1) by (simp add: nth_append)
  have "i - 1 < length a"
    using assms(1) by arith
  then have prev: "(a @ y) ! (i - 1) = a ! (i - 1)"
    by (simp add: nth_append)
  have ahead: "(i + 1 < length (a @ y) \<and> \<not> isspace ((a @ y) ! (i + 1)))
               \<longleftrightarrow> (i + 1 < length a \<and> \<not> isspace (a ! (i + 1)))"
  proof (cases "Suc i < length a")
    case True
    then show ?thesis by (simp add: nth_append)
  next
    case False
    then have "Suc i = length a" using assms(1) by simp
    then show ?thesis using assms(2) by (cases y) (auto simp: nth_append)
  qed
  have mw: "\<And>b. make_word (a @ y) b i = make_word a b i"
    using assms(1) by (simp add: make_word_prefix)
  show ?thesis
  proof (cases state)
    case SPACE
    show ?thesis
      unfolding SPACE step.simps process_space_state_def cur ..
  next
    case WORD
    show ?thesis
      unfolding WORD step.simps process_word_state_def accept_word_char_def cur prev mw ..
  next
    case QUOTES
    show ?thesis
      unfolding QUOTES step.simps process_quote_state_def Let_def cur prev mw ahead ..
  qed
qed

lemma make_word_loop_shift:
  "make_word_loop (k + begin) word loc = map_sum (shift_error k) id (make_word_loop begin word loc)"
proof (induction "begin" word loc rule: make_word_loop.induct)
  case (1 "begin" word)
  show ?case by (simp add: make_word_loop.simps)
next
  case (2 "begin" word backslash_loc)
  show ?case
    using 2 by (simp add: make_word_loop.simps(2) Let_def)
qed

lemma slice_shift: "slice (p @ q) (length p + b) (length p + e) = slice q b e"
  by (simp add: slice_def)

lemma make_word_shift:
  "make_word (p @ q) (length p + b) (length p + e) = map_sum (shift_error (length p)) id (make_word q b e)"
  by (simp add: make_word_def slice_shift make_word_loop_shift)

lemma step_shift:
  assumes "wf_config q (state, i, begin_word, result)" and "i < length q"
  shows "step (p @ q) (shift_config (length p) r0 (state, i, begin_word, result))
         = map_sum (shift_error (length p)) (shift_config (length p) r0)
             (step q (state, i, begin_word, result))"
proof -
  have cur: "(p @ q) ! (length p + i) = q ! i"
    by simp
  have prev: "(p @ q) ! (length p + i - 1) = q ! (i - 1)" if "0 < i"
  proof -
    have "length p + i - 1 = length p + (i - 1)"
      using that by arith
    then show ?thesis
      by (simp only: nth_append_length_plus)
  qed
  have ahead: "(Suc (length p + i) < length p + length q \<and> \<not> isspace ((p @ q) ! Suc (length p + i)))
               \<longleftrightarrow> (Suc i < length q \<and> \<not> isspace (q ! Suc i))"
    by (auto simp: nth_append)
  show ?thesis
  proof (cases state)
    case SPACE
    then show ?thesis
      by (simp add: process_space_state_def cur)
  next
    case WORD
    show ?thesis
    proof (cases begin_word)
      case None
      then have "q ! i \<noteq> dquote" using assms WORD by simp
      then show ?thesis
        using WORD None
        by (simp add: process_word_state_def accept_word_char_def cur)
    next
      case (Some b)
      then have "0 < i" using assms WORD by simp
      then show ?thesis
        using WORD Some prev make_word_shift [of p q b i]
        by (cases "make_word q b i")
          (simp_all add: process_word_state_def accept_word_char_def cur)
    qed
  next
    case QUOTES
    show ?thesis
    proof (cases begin_word)
      case None
      then show ?thesis
        using QUOTES ahead
        by (simp add: process_quote_state_def cur Let_def)
    next
      case (Some b)
      then have "0 < i" using assms QUOTES by simp
      then show ?thesis
        using QUOTES Some prev ahead make_word_shift [of p q b i]
        by (cases "make_word q b i")
          (simp_all add: process_quote_state_def cur Let_def)
    qed
  qed
qed

subsection \<open>The loop on a longer string\<close>

lemma split_from_simps:
  "split_from string (state, i, begin_word, result) =
     (if i < length string then
        (case step string (state, i, begin_word, result) of
           Inl e \<Rightarrow> Inl e
         | Inr c' \<Rightarrow> split_from string c')
      else finish string (state, i, begin_word, result))"
  by (simp add: split_from_def split_loop.simps [of string state i] split: sum.splits)

lemma split_split_from: "split string = split_from string initial"
  by (simp add: split_def split_from_def)

lemma finish_shift:
  "finish (p @ q) (shift_config (length p) r0 c)
   = map_sum (shift_error (length p)) ((@) r0) (finish q c)"
proof (cases c)
  case (fields state i begin_word result)
  show ?thesis
  proof (cases begin_word)
    case None
    then show ?thesis using fields by simp
  next
    case (Some b)
    then show ?thesis
      using fields make_word_shift [of p q b i]
      by (cases "make_word q b i") simp_all
  qed
qed

lemma split_from_shift:
  "wf_config q c \<Longrightarrow>
   split_from (p @ q) (shift_config (length p) r0 c)
   = map_sum (shift_error (length p)) ((@) r0) (split_from q c)"
proof (induction q c rule: split_loop.induct)
  case (1 q state i begin_word result)
  let ?c = "(state, i, begin_word, result)"
  show ?case
  proof (cases "i < length q")
    case False
    then show ?thesis
      using finish_shift [of p q r0 ?c]
      by (simp add: split_from_simps)
  next
    case True
    have st: "step (p @ q) (shift_config (length p) r0 ?c)
              = map_sum (shift_error (length p)) (shift_config (length p) r0) (step q ?c)"
      using "1.prems" True by (rule step_shift)
    show ?thesis
    proof (cases "step q ?c")
      case (Inl e)
      then show ?thesis
        using True st by (simp add: split_from_simps)
    next
      case (Inr c')
      have "wf_config q c'"
        using "1.prems" True Inr by (rule step_wf)
      then have "split_from (p @ q) (shift_config (length p) r0 c')
                 = map_sum (shift_error (length p)) ((@) r0) (split_from q c')"
        using True Inr "1.IH" by simp
      then show ?thesis
        using True st Inr
        by (cases "shift_config (length p) r0 c'") (simp add: split_from_simps)
    qed
  qed
qed

lemma skip_space:
  "list_all isspace ws \<Longrightarrow>
   split_from (p @ ws @ q) (SPACE, length p, begin_word, result)
   = split_from (p @ ws @ q) (SPACE, length p + length ws, begin_word, result)"
proof (induction ws arbitrary: p)
  case Nil
  show ?case by simp
next
  case (Cons x xs)
  have "split_from ((p @ [x]) @ xs @ q) (SPACE, length (p @ [x]), begin_word, result)
        = split_from ((p @ [x]) @ xs @ q) (SPACE, length (p @ [x]) + length xs, begin_word, result)"
    using Cons.prems by (intro Cons.IH) simp
  moreover have "split_from (p @ (x # xs) @ q) (SPACE, length p, begin_word, result)
        = split_from (p @ (x # xs) @ q) (SPACE, length p + 1, begin_word, result)"
    using Cons.prems
    by (subst split_from_simps) (simp add: process_space_state_def)
  ultimately show ?case by simp
qed

lemma split_leading_space:
  assumes "list_all isspace ws"
  shows "split (ws @ string) = map_sum (shift_error (length ws)) id (split string)"
proof -
  have "split (ws @ string) = split_from (ws @ string) (SPACE, length ws, None, [])"
    using skip_space [OF assms, of "[]" string None "[]"]
    by (simp add: split_split_from initial_def)
  also have "\<dots> = split_from (ws @ string) (shift_config (length ws) [] initial)"
    by (simp add: initial_def)
  also have "\<dots> = map_sum (shift_error (length ws)) ((@) []) (split_from string initial)"
    using wf_initial by (rule split_from_shift)
  finally show ?thesis
    by (cases "split_from string initial") (simp_all add: split_split_from)
qed

lemma split_from_prefix_ok:
  "wf_config a c \<Longrightarrow> split_from a c = Inr r \<Longrightarrow> isspace w \<Longrightarrow>
   split_from (a @ w # x) c = split_from (a @ w # x) (SPACE, length a + 1, None, r)"
proof (induction a c rule: split_loop.induct)
  case (1 a state i begin_word result)
  let ?c = "(state, i, begin_word, result)"
  show ?case
  proof (cases "i < length a")
    case True
    have st: "step (a @ w # x) ?c = step a ?c"
      using True "1.prems"(3) by (intro step_prefix) simp_all
    show ?thesis
    proof (cases "step a ?c")
      case (Inl e)
      then show ?thesis
        using True "1.prems"(2) by (simp add: split_from_simps)
    next
      case (Inr c')
      have "wf_config a c'"
        using "1.prems"(1) True Inr by (rule step_wf)
      moreover have "split_from a c' = Inr r"
        using "1.prems"(2) True Inr by (simp add: split_from_simps)
      ultimately have "split_from (a @ w # x) c'
                       = split_from (a @ w # x) (SPACE, length a + 1, None, r)"
        using True Inr "1.IH" "1.prems"(3) by simp
      then show ?thesis
        using True st Inr by (simp add: split_from_simps [of "a @ w # x" state])
    qed
  next
    case False
    then have i: "i = length a"
      using "1.prems"(1) by simp
    have fin: "finish a ?c = Inr r"
      using "1.prems"(2) False by (simp add: split_from_simps)
    have space: "split_from (a @ w # x) (SPACE, length a, None, r)
                 = split_from (a @ w # x) (SPACE, length a + 1, None, r)"
      using "1.prems"(3)
      by (subst split_from_simps) (simp add: process_space_state_def)
    show ?thesis
    proof (cases state)
      case SPACE
      then have "begin_word = None" and "result = r"
        using "1.prems"(1) fin by (auto split: option.splits)
      then show ?thesis
        using SPACE i space by simp
    next
      case WORD
      then obtain b where b: "begin_word = Some b"
        using "1.prems"(1) i by (cases begin_word) auto
      then obtain word where word: "make_word a b (length a) = Inr word" and r: "r = result @ [word]"
        using fin WORD i by (auto split: sum.splits)
      have "make_word (a @ w # x) b (length a) = Inr word"
        using word by (simp add: make_word_prefix)
      then have "split_from (a @ w # x) ?c = split_from (a @ w # x) (SPACE, length a, None, r)"
        using WORD b i r "1.prems"(3)
        by (subst split_from_simps) (simp add: process_word_state_def)
      then show ?thesis
        using space by simp
    next
      case QUOTES
      then show ?thesis using fin by simp
    qed
  qed
qed

lemma split_from_prefix_error:
  "wf_config a c \<Longrightarrow> split_from a c = Inl e \<Longrightarrow> e \<noteq> QuoteError NotClosed \<Longrightarrow>
   isspace w \<Longrightarrow> split_from (a @ w # x) c = Inl e"
proof (induction a c rule: split_loop.induct)
  case (1 a state i begin_word result)
  let ?c = "(state, i, begin_word, result)"
  show ?case
  proof (cases "i < length a")
    case True
    have st: "step (a @ w # x) ?c = step a ?c"
      using True "1.prems"(4) by (intro step_prefix) simp_all
    show ?thesis
    proof (cases "step a ?c")
      case (Inl e')
      then show ?thesis
        using True st "1.prems"(2) by (simp add: split_from_simps)
    next
      case (Inr c')
      have "wf_config a c'"
        using "1.prems"(1) True Inr by (rule step_wf)
      moreover have "split_from a c' = Inl e"
        using "1.prems"(2) True Inr by (simp add: split_from_simps)
      ultimately have "split_from (a @ w # x) c' = Inl e"
        using True Inr "1.IH" "1.prems"(3,4) by simp
      then show ?thesis
        using True st Inr by (simp add: split_from_simps [of "a @ w # x" state])
    qed
  next
    case False
    then have i: "i = length a"
      using "1.prems"(1) by simp
    have fin: "finish a ?c = Inl e"
      using "1.prems"(2) False by (simp add: split_from_simps)
    then have not_quotes: "state \<noteq> QUOTES"
      using "1.prems"(3) by (auto split: if_splits)
    then obtain b where b: "begin_word = Some b" and mw: "make_word a b (length a) = Inl e"
      using fin i by (auto split: option.splits sum.splits)
    then have WORD: "state = WORD"
      using "1.prems"(1) not_quotes by (cases state) auto
    have "make_word (a @ w # x) b (length a) = Inl e"
      using mw by (simp add: make_word_prefix)
    then show ?thesis
      using WORD b i "1.prems"(4)
      by (subst split_from_simps) (simp add: process_word_state_def)
  qed
qed

lemma quotes_through_space:
  "list_all isspace ws \<Longrightarrow>
   split_from (p @ ws) (QUOTES, length p, begin_word, result) = Inl (QuoteError NotClosed)"
proof (induction ws arbitrary: p begin_word)
  case Nil
  show ?case by (simp add: split_from_simps)
next
  case (Cons x xs)
  have "\<And>bw. split_from ((p @ [x]) @ xs) (QUOTES, length (p @ [x]), bw, result)
        = Inl (QuoteError NotClosed)"
    using Cons.prems by (intro Cons.IH) simp
  then show ?case
    using Cons.prems
    by (subst split_from_simps) (simp add: process_quote_state_def split: option.splits)
qed

lemma split_from_trailing_space:
  "wf_config string c \<Longrightarrow> list_all isspace ws \<Longrightarrow>
   split_from (string @ ws) c = split_from string c"
proof (induction string c rule: split_loop.induct)
  case (1 a state i begin_word result)
  let ?c = "(state, i, begin_word, result)"
  show ?case
  proof (cases "i < length a")
    case True
    have "ws = [] \<or> isspace (hd ws)"
      using "1.prems"(2) by (cases ws) simp_all
    with True have st: "step (a @ ws) ?c = step a ?c"
      by (rule step_prefix)
    show ?thesis
    proof (cases "step a ?c")
      case (Inl e')
      then show ?thesis
        using True st by (simp add: split_from_simps)
    next
      case (Inr c')
      have "wf_config a c'"
        using "1.prems"(1) True Inr by (rule step_wf)
      then have "split_from (a @ ws) c' = split_from a c'"
        using True Inr "1.IH" "1.prems"(2) by simp
      then show ?thesis
        using True st Inr
        by (simp add: split_from_simps [of "a @ ws" state] split_from_simps [of a state])
    qed
  next
    case False
    then have i: "i = length a"
      using "1.prems"(1) by simp
    have rhs: "split_from a ?c = finish a ?c"
      using False by (simp add: split_from_simps)
    have space: "\<And>r. split_from (a @ ws) (SPACE, length a, None, r) = Inr r"
      using skip_space [OF "1.prems"(2), of a "[]" None]
      by (simp add: split_from_simps [of _ SPACE "length a + length ws"])
    show ?thesis
    proof (cases state)
      case SPACE
      then have "begin_word = None"
        using "1.prems"(1) by (auto split: option.splits)
      then show ?thesis
        using SPACE i space rhs by simp
    next
      case QUOTES
      then show ?thesis
        using i rhs quotes_through_space [OF "1.prems"(2), of a begin_word result] by simp
    next
      case WORD
      then obtain b where b: "begin_word = Some b"
        using "1.prems"(1) i by (cases begin_word) auto
      show ?thesis
      proof (cases ws)
        case Nil
        then show ?thesis by simp
      next
        case (Cons x xs)
        then have x: "isspace x" using "1.prems"(2) by simp
        have mw: "make_word (a @ ws) b (length a) = make_word a b (length a)"
          by (simp add: make_word_prefix)
        show ?thesis
        proof (cases "make_word a b (length a)")
          case (Inl e)
          then show ?thesis
            using WORD b i x Cons mw rhs
            by (subst split_from_simps) (simp add: process_word_state_def)
        next
          case (Inr word)
          then have "split_from (a @ ws) ?c = split_from (a @ ws) (SPACE, length a, None, result @ [word])"
            using WORD b i x Cons mw
            by (subst split_from_simps) (simp add: process_word_state_def)
          then show ?thesis
            using space rhs WORD b i Inr by simp
        qed
      qed
    qed
  qed
qed

subsection \<open>Whitespace\<close>

lemma shift_error_add: "shift_error k (shift_error m e) = shift_error (k + m) e"
  by (induction m e rule: shift_error.induct) simp_all

lemma split_after_prefix:
  assumes "split a = Inr r" and "isspace w"
  shows "split (a @ w # x) = map_sum (shift_error (length a + 1)) ((@) r) (split x)"
proof -
  have "split_from a initial = Inr r"
    using assms(1) by (simp add: split_split_from)
  with wf_initial have "split_from (a @ w # x) initial
                        = split_from (a @ w # x) (SPACE, length a + 1, None, r)"
    using assms(2) by (rule split_from_prefix_ok)
  also have "\<dots> = split_from ((a @ [w]) @ x) (shift_config (length (a @ [w])) r initial)"
    by (simp add: initial_def)
  also have "\<dots> = map_sum (shift_error (length (a @ [w]))) ((@) r) (split_from x initial)"
    using wf_initial by (rule split_from_shift)
  finally show ?thesis
    by (simp add: split_split_from)
qed

lemma split_after_failed_prefix:
  assumes "split a = Inl e" and "e \<noteq> QuoteError NotClosed" and "isspace w"
  shows "split (a @ w # x) = Inl e"
proof -
  have "split_from a initial = Inl e"
    using assms(1) by (simp add: split_split_from)
  with wf_initial have "split_from (a @ w # x) initial = Inl e"
    using assms(2,3) by (rule split_from_prefix_error)
  then show ?thesis
    by (simp add: split_split_from)
qed

lemma split_trailing_space:
  "list_all isspace ws \<Longrightarrow> split (string @ ws) = split string"
  using split_from_trailing_space [OF wf_initial] by (simp add: split_split_from)

lemma split_extra_space:
  assumes "list_all isspace ws" and "isspace w" and "isspace w'" and "split a = Inr r"
  shows "split (a @ w # ws @ b) = map_sum (shift_error (length ws)) id (split (a @ w' # b))"
proof -
  have "split (a @ w # ws @ b)
        = map_sum (shift_error (length a + 1)) ((@) r) (split (ws @ b))"
    using assms(4,2) by (rule split_after_prefix)
  also have "split (ws @ b) = map_sum (shift_error (length ws)) id (split b)"
    using assms(1) by (rule split_leading_space)
  finally have "split (a @ w # ws @ b)
     = map_sum (shift_error (length ws)) id (map_sum (shift_error (length a + 1)) ((@) r) (split b))"
    by (cases "split b") (simp_all add: shift_error_add add.commute)
  then show ?thesis
    using split_after_prefix [OF assms(4,3), of b] by simp
qed

lemma split_spaced_example: "split ''  a   b  '' = Inr [''a'', ''b'']"
  by code_simp

lemma split_single_spaced_example: "split ''a b'' = Inr [''a'', ''b'']"
  by code_simp

text \<open>
  Claim C6. Let \<open>ws\<close> be whitespace. Putting \<open>ws\<close> in front of an input gives the same
  words, and the same error with its index moved by the length of \<open>ws\<close> when the input
  fails. Putting \<open>ws\<close> behind an input changes nothing at all. Between tokens, that is
  after a prefix \<open>a\<close> which splits on its own, the whitespace run \<open>w # ws\<close> gives
  the same words as any single whitespace character \<open>w'\<close>, and the same error with its
  index moved when the input fails; when the prefix already fails, other than by an
  unclosed quote, both inputs fail with that same error. Both \<^verbatim>\<open>"  a   b  "\<close> and
  \<^verbatim>\<open>"a b"\<close> split into \<open>a\<close> and \<open>b\<close>.
\<close>

theorem whitespace_between_tokens:
  assumes "list_all isspace ws"
  shows "split (ws @ string) = map_sum (shift_error (length ws)) id (split string) \<and>
         split (string @ ws) = split string \<and>
         (isspace w \<and> isspace w' \<and> split a = Inr r \<longrightarrow>
            split (a @ w # ws @ b) = map_sum (shift_error (length ws)) id (split (a @ w' # b))) \<and>
         (isspace w \<and> isspace w' \<and> split a = Inl e \<and> e \<noteq> QuoteError NotClosed \<longrightarrow>
            split (a @ w # ws @ b) = Inl e \<and> split (a @ w' # b) = Inl e) \<and>
         split ''  a   b  '' = Inr [''a'', ''b''] \<and> split ''a b'' = Inr [''a'', ''b'']"
  using split_leading_space [OF assms] split_trailing_space [OF assms]
    split_extra_space [OF assms] split_after_failed_prefix
    split_spaced_example split_single_spaced_example
  by simp

theorem whitespace_between_tokens_witness:
  "list_all isspace ''  '' \<and> isspace CHR '' '' \<and>
   split ''x'' = Inr [''x''] \<and>
   split (''  '' @ ''a b'') = Inr [''a'', ''b''] \<and>
   split (''a b'' @ ''  '') = Inr [''a'', ''b''] \<and>
   split (''x'' @ CHR '' '' # ''  '' @ ''y'') = Inr [''x'', ''y''] \<and>
   split ([dquote] @ ''x'') = Inl (QuoteError NotClosed) \<and>
   split (''x'' @ [dquote]) = Inl (InvalidAcceptError dquote 1) \<and>
   split ((''x'' @ [dquote]) @ CHR '' '' # ''  '' @ ''y'') = Inl (InvalidAcceptError dquote 1)"
proof -
  have ws: "list_all isspace ''  ''" and w: "isspace CHR '' ''"
    by (simp_all add: isspace_def)
  have x: "split ''x'' = Inr [''x'']"
    by code_simp
  have ab: "split ''a b'' = Inr [''a'', ''b'']"
    by code_simp
  have xy: "split (''x'' @ CHR '' '' # ''y'') = Inr [''x'', ''y'']"
    by code_simp
  have q: "split ([dquote] @ ''x'') = Inl (QuoteError NotClosed)"
    by code_simp
  have xq: "split (''x'' @ [dquote]) = Inl (InvalidAcceptError dquote 1)"
    by code_simp
  show ?thesis
    using whitespace_between_tokens [OF ws, where string = "''a b''" and w = "CHR '' ''"
        and w' = "CHR '' ''" and a = "''x''" and r = "[''x'']" and b = "''y''"]
      whitespace_between_tokens [OF ws, where w = "CHR '' ''" and w' = "CHR '' ''"
        and a = "''x'' @ [dquote]" and b = "''y''" and e = "InvalidAcceptError dquote 1"]
      ws w x ab xy q xq
    by simp
qed

subsection \<open>Joining and splitting\<close>

lemma unescape_plain: "list_all plain_char w \<Longrightarrow> unescape w = Inr w"
  by (induction w) (simp_all add: plain_char_def)

lemma make_word_plain:
  assumes "list_all plain_char w"
  shows "make_word w 0 (length w) = Inr w"
proof -
  have "map_sum escape_kind_of id (make_word w 0 (length w)) = Inr w"
    using make_word_unescape [of w 0 "length w"] unescape_plain [OF assms]
    by (simp add: slice_def)
  then show ?thesis
    by (cases "make_word w 0 (length w)") simp_all
qed

lemma split_from_in_plain_word:
  "list_all plain_char w \<Longrightarrow> 0 < k \<Longrightarrow> k \<le> length w \<Longrightarrow>
   split_from w (WORD, k, Some 0, r) = Inr (r @ [w])"
proof (induction "length w - k" arbitrary: k)
  case 0
  then have "k = length w" by simp
  then show ?case
    using make_word_plain [OF "0.prems"(1)] by (simp add: split_from_simps)
next
  case (Suc n)
  then have k: "k < length w" by simp
  then have "plain_char (w ! k)"
    using Suc.prems(1) by (simp add: list_all_length)
  then have "step w (WORD, k, Some 0, r) = Inr (WORD, k + 1, Some 0, r)"
    by (simp add: process_word_state_def accept_word_char_def plain_char_def)
  moreover have "split_from w (WORD, k + 1, Some 0, r) = Inr (r @ [w])"
    using Suc.hyps(2) Suc.prems k by (intro Suc.hyps(1)) simp_all
  ultimately show ?case
    using k by (simp add: split_from_simps [of w WORD k])
qed

lemma split_plain_word:
  assumes "w \<noteq> []" and "list_all plain_char w"
  shows "split w = Inr [w]"
proof -
  have first: "plain_char (w ! 0)"
    using assms by (simp add: list_all_length)
  have "split w = split_from w (WORD, 0, None, [])"
    using assms(1) first
    by (simp add: split_split_from initial_def split_from_simps [of w SPACE]
        process_space_state_def plain_char_def)
  also have "\<dots> = split_from w (WORD, 1, Some 0, [])"
    using assms(1) first
    by (simp add: split_from_simps [of w WORD 0]
        process_word_state_def accept_word_char_def plain_char_def)
  also have "\<dots> = Inr ([] @ [w])"
    using assms by (intro split_from_in_plain_word) (simp_all add: Suc_leI)
  finally show ?thesis by simp
qed

lemma join_split_empty_input: "split [] = Inr []"
  by code_simp

text \<open>
  Claim C5, amended. For every sequence of non-empty words without whitespace, quote or
  backslash characters, joining the words with single spaces and splitting gives the
  sequence back.
\<close>

theorem join_split_roundtrip:
  "list_all (\<lambda>w. w \<noteq> [] \<and> list_all plain_char w) ws \<Longrightarrow> split (join_words ws) = Inr ws"
proof (induction ws rule: join_words.induct)
  case 1
  show ?case using join_split_empty_input by simp
next
  case (2 w)
  then show ?case by (simp add: split_plain_word)
next
  case (3 w v ws)
  have "split w = Inr [w]"
    using "3.prems" by (simp add: split_plain_word)
  moreover have "isspace CHR '' ''"
    by (simp add: isspace_def)
  ultimately have "split (w @ CHR '' '' # join_words (v # ws))
     = map_sum (shift_error (length w + 1)) ((@) [w]) (split (join_words (v # ws)))"
    by (rule split_after_prefix)
  moreover have "split (join_words (v # ws)) = Inr (v # ws)"
    using "3.prems" by (intro "3.IH") simp
  ultimately show ?case by simp
qed

theorem join_split_roundtrip_witness:
  "list_all (\<lambda>w. w \<noteq> [] \<and> list_all plain_char w) [''the'', ''quick'', ''fox''] \<and>
   split (join_words [''the'', ''quick'', ''fox'']) = Inr [''the'', ''quick'', ''fox'']"
proof -
  have h: "list_all (\<lambda>w. w \<noteq> [] \<and> list_all plain_char w) [''the'', ''quick'', ''fox'']"
    by (simp add: plain_char_def isspace_def dquote_def backslash_def)
  show ?thesis
    using h join_split_roundtrip [OF h] by simp
qed

text \<open>
  The claim as stated, which admits empty words, fails: the one empty word joins to the
  empty string, which splits into no word at all.
\<close>

theorem join_split_empty_word:
  "list_all (list_all plain_char) [[]] \<and> split (join_words [[]]) = Inr [] \<and>
   split (join_words [[]]) \<noteq> Inr [[]]"
  using join_split_empty_input by simp

subsection \<open>The run of the loop\<close>

lemma trace_simps:
  "split_trace string (state, i, begin_word, result) =
     (if i < length string then
        (state, i, begin_word, result) #
        (case step string (state, i, begin_word, result) of
           Inl e \<Rightarrow> []
         | Inr c' \<Rightarrow> split_trace string c')
      else [(state, i, begin_word, result)])"
  by (rule split_trace.simps)

lemma trace_hd: "\<exists>rest. split_trace string c = c # rest"
  by (cases c) (simp add: trace_simps)

lemma trace_nonempty: "split_trace string c \<noteq> []"
  using trace_hd [of string c] by auto

lemma trace_stop:
  "\<not> i < length string \<Longrightarrow>
   split_trace string (state, i, begin_word, result) = [(state, i, begin_word, result)]"
  by (subst trace_simps) simp

lemma trace_error:
  "i < length string \<Longrightarrow> step string (state, i, begin_word, result) = Inl e \<Longrightarrow>
   split_trace string (state, i, begin_word, result) = [(state, i, begin_word, result)]"
  by (subst trace_simps) simp

lemma trace_step:
  "i < length string \<Longrightarrow> step string (state, i, begin_word, result) = Inr c' \<Longrightarrow>
   split_trace string (state, i, begin_word, result)
   = (state, i, begin_word, result) # split_trace string c'"
  by (subst trace_simps) simp

lemma trace_cases:
  assumes "c'' \<in> set (split_trace string (state, i, begin_word, result))"
    and "c'' \<noteq> (state, i, begin_word, result)"
  obtains c' where "i < length string" and "step string (state, i, begin_word, result) = Inr c'"
    and "c'' \<in> set (split_trace string c')"
proof (cases "i < length string")
  case False
  then show ?thesis using assms by (simp add: trace_stop)
next
  case True
  show ?thesis
  proof (cases "step string (state, i, begin_word, result)")
    case (Inl e)
    then show ?thesis using True assms by (simp add: trace_error)
  next
    case (Inr c')
    then show ?thesis using True assms that by (simp add: trace_step)
  qed
qed

lemma trace_measure:
  "c'' \<in> set (split_trace string c) \<Longrightarrow> loop_measure (string, c'') \<le> loop_measure (string, c)"
proof (induction string c rule: split_trace.induct)
  case (1 string state i begin_word result)
  let ?c = "(state, i, begin_word, result)"
  show ?case
  proof (cases "c'' = ?c")
    case True
    then show ?thesis by simp
  next
    case False
    with "1.prems" obtain c' where i: "i < length string" and st: "step string ?c = Inr c'"
      and mem: "c'' \<in> set (split_trace string c')"
      by (rule trace_cases)
    have "loop_measure (string, c'') \<le> loop_measure (string, c')"
      using i st mem by (rule "1.IH")
    also have "\<dots> < loop_measure (string, ?c)"
      using i st by (rule step_decreases)
    finally show ?thesis by simp
  qed
qed

lemma trace_index:
  "c'' \<in> set (split_trace string c) \<Longrightarrow> index_of_config c \<le> index_of_config c''"
proof (induction string c rule: split_trace.induct)
  case (1 string state i begin_word result)
  let ?c = "(state, i, begin_word, result)"
  show ?case
  proof (cases "c'' = ?c")
    case True
    then show ?thesis by simp
  next
    case False
    with "1.prems" obtain c' where i: "i < length string" and st: "step string ?c = Inr c'"
      and mem: "c'' \<in> set (split_trace string c')"
      by (rule trace_cases)
    have "i \<le> index_of_config c'"
      using st by (rule step_index_mono)
    also have "\<dots> \<le> index_of_config c''"
      using i st mem by (rule "1.IH")
    finally show ?thesis by simp
  qed
qed

lemma trace_sorted: "sorted (map index_of_config (split_trace string c))"
proof (induction string c rule: split_trace.induct)
  case (1 string state i begin_word result)
  let ?c = "(state, i, begin_word, result)"
  show ?case
  proof (cases "i < length string")
    case False
    then show ?thesis by (simp add: trace_stop)
  next
    case True
    show ?thesis
    proof (cases "step string ?c")
      case (Inl e)
      then show ?thesis using True by (simp add: trace_error)
    next
      case (Inr c')
      have "sorted (map index_of_config (split_trace string c'))"
        using True Inr by (rule "1.IH")
      moreover have "\<forall>c'' \<in> set (split_trace string c'). i \<le> index_of_config c''"
        using trace_index [of _ string c'] step_index_mono [OF Inr] by (meson order_trans)
      ultimately show ?thesis
        using True Inr by (simp add: trace_step)
    qed
  qed
qed

lemma loop_measure_key:
  "state_of c = state_of c' \<Longrightarrow> index_of_config c = index_of_config c' \<Longrightarrow>
   loop_measure (string, c) = loop_measure (string, c')"
  by (cases c; cases c') (simp add: loop_measure_def)

lemma trace_distinct:
  "distinct (map (\<lambda>c. (state_of c, index_of_config c)) (split_trace string c))"
proof (induction string c rule: split_trace.induct)
  case (1 string state i begin_word result)
  let ?c = "(state, i, begin_word, result)"
  show ?case
  proof (cases "i < length string")
    case False
    then show ?thesis by (simp add: trace_stop)
  next
    case True
    show ?thesis
    proof (cases "step string ?c")
      case (Inl e)
      then show ?thesis using True by (simp add: trace_error)
    next
      case (Inr c')
      have "distinct (map (\<lambda>c. (state_of c, index_of_config c)) (split_trace string c'))"
        using True Inr by (rule "1.IH")
      moreover have "(state, i) \<noteq> (state_of c'', index_of_config c'')"
        if "c'' \<in> set (split_trace string c')" for c''
      proof
        assume "(state, i) = (state_of c'', index_of_config c'')"
        then have "loop_measure (string, c'') = loop_measure (string, ?c)"
          by (intro loop_measure_key) simp_all
        moreover have "loop_measure (string, c'') \<le> loop_measure (string, c')"
          using that by (rule trace_measure)
        moreover have "loop_measure (string, c') < loop_measure (string, ?c)"
          using True Inr by (rule step_decreases)
        ultimately show False by simp
      qed
      ultimately show ?thesis
        using True Inr by (auto simp: trace_step)
    qed
  qed
qed

lemma trace_length:
  "length (split_trace string c) \<le> loop_measure (string, c) + 1"
proof (induction string c rule: split_trace.induct)
  case (1 string state i begin_word result)
  let ?c = "(state, i, begin_word, result)"
  show ?case
  proof (cases "i < length string")
    case False
    then show ?thesis by (simp add: trace_stop)
  next
    case True
    show ?thesis
    proof (cases "step string ?c")
      case (Inl e)
      then show ?thesis using True by (simp add: trace_error)
    next
      case (Inr c')
      have "length (split_trace string c') \<le> loop_measure (string, c') + 1"
        using True Inr by (rule "1.IH")
      moreover have "loop_measure (string, c') < loop_measure (string, ?c)"
        using True Inr by (rule step_decreases)
      ultimately show ?thesis
        using True Inr by (simp add: trace_step)
    qed
  qed
qed

lemma trace_last_step:
  assumes "i < length string" and "step string (state, i, begin_word, result) = Inr c'"
  shows "last (split_trace string (state, i, begin_word, result)) = last (split_trace string c')"
  using trace_nonempty [of string c'] by (simp add: trace_step [OF assms])

lemma trace_loop_ok:
  "split_loop string c = Inr cf \<Longrightarrow>
   last (split_trace string c) = cf \<and> length string \<le> index_of_config cf"
proof (induction string c rule: split_trace.induct)
  case (1 string state i begin_word result)
  let ?c = "(state, i, begin_word, result)"
  show ?case
  proof (cases "i < length string")
    case False
    then show ?thesis
      using "1.prems" by (auto simp: trace_stop split_loop.simps [of string state i])
  next
    case True
    have "split_loop string ?c
          = (case step string ?c of Inl e \<Rightarrow> Inl e | Inr c' \<Rightarrow> split_loop string c')"
      using True by (subst split_loop.simps) simp
    then obtain c' where st: "step string ?c = Inr c'" and loop: "split_loop string c' = Inr cf"
      using "1.prems" by (cases "step string ?c") simp_all
    have "last (split_trace string c') = cf \<and> length string \<le> index_of_config cf"
      using True st loop by (rule "1.IH")
    then show ?thesis
      by (simp only: trace_last_step [OF True st])
  qed
qed

lemma trace_loop_error:
  "split_loop string c = Inl e \<Longrightarrow>
   index_of_config (last (split_trace string c)) < length string \<and>
   step string (last (split_trace string c)) = Inl e"
proof (induction string c rule: split_trace.induct)
  case (1 string state i begin_word result)
  let ?c = "(state, i, begin_word, result)"
  have i: "i < length string"
    using "1.prems" by (subst (asm) split_loop.simps) (simp split: if_splits)
  then have unfold: "split_loop string ?c
          = (case step string ?c of Inl e \<Rightarrow> Inl e | Inr c' \<Rightarrow> split_loop string c')"
    by (subst split_loop.simps) simp
  show ?case
  proof (cases "step string ?c")
    case (Inl e')
    then show ?thesis
      using i "1.prems" unfold by (simp add: trace_error)
  next
    case (Inr c')
    then have loop: "split_loop string c' = Inl e"
      using "1.prems" unfold by simp
    have "index_of_config (last (split_trace string c')) < length string \<and>
          step string (last (split_trace string c')) = Inl e"
      using i Inr loop by (rule "1.IH")
    then show ?thesis
      by (simp only: trace_last_step [OF i Inr])
  qed
qed

lemma trace_wf:
  "wf_config string c \<Longrightarrow> c'' \<in> set (split_trace string c) \<Longrightarrow> wf_config string c''"
proof (induction string c rule: split_trace.induct)
  case (1 string state i begin_word result)
  let ?c = "(state, i, begin_word, result)"
  show ?case
  proof (cases "c'' = ?c")
    case True
    then show ?thesis using "1.prems"(1) by simp
  next
    case False
    with "1.prems"(2) obtain c' where i: "i < length string" and st: "step string ?c = Inr c'"
      and mem: "c'' \<in> set (split_trace string c')"
      by (rule trace_cases)
    have "wf_config string c'"
      using "1.prems"(1) i st by (rule step_wf)
    with i st show ?thesis
      using mem by (rule "1.IH")
  qed
qed

text \<open>
  Claim C9. \<^verbatim>\<open>split\<close> is a total function: its loop is defined by well-founded recursion
  on \<open>loop_measure\<close>. The loop states at the top of the loop form a list of at most
  \<open>2 * length string + 2\<close> states, in which the index never decreases and no pair of
  state and index occurs twice. The loop ends at the last of them: either the step there
  raises an error, which is the error of \<^verbatim>\<open>split\<close>, or the index has reached the length
  of the input.
\<close>

theorem split_loop_bounded:
  "length (split_trace string initial) \<le> 2 * length string + 2 \<and>
   sorted (map index_of_config (split_trace string initial)) \<and>
   distinct (map (\<lambda>c. (state_of c, index_of_config c)) (split_trace string initial)) \<and>
   (case split_loop string initial of
      Inl e \<Rightarrow> index_of_config (last (split_trace string initial)) < length string \<and>
               step string (last (split_trace string initial)) = Inl e \<and>
               split string = Inl e
    | Inr c' \<Rightarrow> last (split_trace string initial) = c' \<and> index_of_config c' = length string \<and>
               split string = finish string c')"
proof -
  have "loop_measure (string, initial) \<le> 2 * length string + 1"
    by (simp add: loop_measure_def initial_def)
  then have "length (split_trace string initial) \<le> 2 * length string + 2"
    using trace_length [of string initial] by simp
  moreover have "index_of_config c' = length string" if "split_loop string initial = Inr c'" for c'
  proof -
    have "last (split_trace string initial) = c'" and ge: "length string \<le> index_of_config c'"
      using trace_loop_ok [OF that] by simp_all
    then have "c' \<in> set (split_trace string initial)"
      using trace_nonempty [of string initial] last_in_set by metis
    with wf_initial have "wf_config string c'"
      by (rule trace_wf)
    then show ?thesis
      using ge by (cases c') simp
  qed
  moreover have "split string = Inl e" if "split_loop string initial = Inl e" for e
    using that by (simp add: split_def)
  moreover have "split string = finish string c'" if "split_loop string initial = Inr c'" for c'
    using that by (simp add: split_def)
  ultimately show ?thesis
    using trace_sorted [of string initial] trace_distinct [of string initial]
      trace_loop_ok [of string initial] trace_loop_error [of string initial]
    by (cases "split_loop string initial") simp_all
qed

subsection \<open>The pending span\<close>

lemma trace_adjacent:
  "Suc k < length (split_trace string c) \<Longrightarrow>
   index_of_config (split_trace string c ! k) < length string \<and>
   step string (split_trace string c ! k) = Inr (split_trace string c ! Suc k)"
proof (induction string c arbitrary: k rule: split_trace.induct)
  case (1 string state i begin_word result)
  let ?c = "(state, i, begin_word, result)"
  have i: "i < length string"
    using "1.prems" by (cases "i < length string") (simp_all add: trace_stop)
  then obtain c' where st: "step string ?c = Inr c'"
    using "1.prems" by (cases "step string ?c") (simp_all add: trace_error)
  note unfold = trace_step [OF i st]
  obtain rest where rest: "split_trace string c' = c' # rest"
    using trace_hd by blast
  show ?case
  proof (cases k)
    case 0
    then show ?thesis
      using i st unfold rest by simp
  next
    case (Suc j)
    then have "Suc j < length (split_trace string c')"
      using "1.prems" unfold by simp
    then have "index_of_config (split_trace string c' ! j) < length string \<and>
               step string (split_trace string c' ! j) = Inr (split_trace string c' ! Suc j)"
      using i st by (intro "1.IH")
    then show ?thesis
      using Suc unfold by simp
  qed
qed

lemma step_begin_word:
  assumes "wf_config string (state, i, begin_word, result)"
    and "step string (state, i, begin_word, result) = Inr c'"
  shows "begin_word_of c' \<noteq> None \<longleftrightarrow> state_of c' \<noteq> SPACE \<and> state = state_of c'"
  using assms
  by (cases state)
    (auto simp: process_space_state_def process_word_state_def
      process_quote_state_def accept_word_char_def Let_def
      split: if_splits option.splits sum.splits)

lemma step_just_entered:
  assumes "wf_config string (state, i, begin_word, result)"
    and "step string (state, i, begin_word, result) = Inr c'"
    and "begin_word_of c' = None"
  shows "state_of c' = WORD \<longrightarrow> state = SPACE \<and> index_of_config c' = i"
    and "state_of c' = QUOTES \<longrightarrow>
           state = SPACE \<and> index_of_config c' = i + 1 \<and> string ! i = dquote"
  using assms
  by (cases state;
      auto simp: process_space_state_def process_word_state_def
      process_quote_state_def accept_word_char_def Let_def
      split: if_splits option.splits sum.splits)+

text \<open>
  Claim C8. At the \<open>k\<close>-th top-of-loop point of \<^verbatim>\<open>split\<close>, \<^verbatim>\<open>begin_word\<close> is set
  if and only if the state is \<^verbatim>\<open>WORD\<close> or \<^verbatim>\<open>QUOTES\<close> and the iteration before ran in
  that same state, that is, consumed a character of the span. A \<^verbatim>\<open>begin_word\<close> that is
  set lies before the index, and it is never set in \<^verbatim>\<open>SPACE\<close>. \<^verbatim>\<open>WORD\<close> without
  \<^verbatim>\<open>begin_word\<close> has just been entered from \<^verbatim>\<open>SPACE\<close> at the same index, and
  \<^verbatim>\<open>QUOTES\<close> without \<^verbatim>\<open>begin_word\<close> has just been entered from \<^verbatim>\<open>SPACE\<close> over the
  opening quote.
\<close>

theorem begin_word_invariant:
  assumes "k < length (split_trace string initial)"
    and "c = split_trace string initial ! k"
  shows "(begin_word_of c \<noteq> None \<longleftrightarrow>
            (state_of c = WORD \<or> state_of c = QUOTES) \<and> 0 < k \<and>
            state_of (split_trace string initial ! (k - 1)) = state_of c) \<and>
         (\<forall>b. begin_word_of c = Some b \<longrightarrow> b < index_of_config c) \<and>
         (state_of c = SPACE \<longrightarrow> begin_word_of c = None) \<and>
         (state_of c = WORD \<and> begin_word_of c = None \<longrightarrow>
            0 < k \<and> state_of (split_trace string initial ! (k - 1)) = SPACE \<and>
            index_of_config (split_trace string initial ! (k - 1)) = index_of_config c) \<and>
         (state_of c = QUOTES \<and> begin_word_of c = None \<longrightarrow>
            0 < k \<and> state_of (split_trace string initial ! (k - 1)) = SPACE \<and>
            index_of_config (split_trace string initial ! (k - 1)) + 1 = index_of_config c \<and>
            string ! (index_of_config c - 1) = dquote)"
proof -
  let ?t = "split_trace string initial"
  have "c \<in> set ?t"
    using assms by simp
  with wf_initial have wf: "wf_config string c"
    by (rule trace_wf)
  have span: "(\<forall>b. begin_word_of c = Some b \<longrightarrow> b < index_of_config c) \<and>
              (state_of c = SPACE \<longrightarrow> begin_word_of c = None)"
    using wf by (cases c) (auto split: option.splits)
  show ?thesis
  proof (cases k)
    case 0
    obtain rest where "?t = initial # rest"
      using trace_hd by blast
    then have "c = initial"
      using assms(2) 0 by simp
    then show ?thesis
      using 0 by (simp add: initial_def)
  next
    case (Suc j)
    obtain state i begin_word result where p: "?t ! j = (state, i, begin_word, result)"
      by (cases "?t ! j")
    have "?t ! j \<in> set ?t"
      using assms(1) Suc by simp
    with wf_initial have "wf_config string (?t ! j)"
      by (rule trace_wf)
    then have wfp: "wf_config string (state, i, begin_word, result)"
      using p by simp
    have "step string (?t ! j) = Inr (?t ! Suc j)"
      using assms(1) Suc trace_adjacent [of j string initial] by simp
    then have st: "step string (state, i, begin_word, result) = Inr c"
      using p assms(2) Suc by simp
    have "begin_word_of c \<noteq> None \<longleftrightarrow> state_of c \<noteq> SPACE \<and> state = state_of c"
      using wfp st by (rule step_begin_word)
    moreover have "state_of c = WORD \<and> begin_word_of c = None \<longrightarrow>
                   state = SPACE \<and> index_of_config c = i"
      using step_just_entered(1) [OF wfp st] by simp
    moreover have "state_of c = QUOTES \<and> begin_word_of c = None \<longrightarrow>
                   state = SPACE \<and> index_of_config c = i + 1 \<and> string ! i = dquote"
      using step_just_entered(2) [OF wfp st] by simp
    ultimately show ?thesis
      using span Suc p by (cases "state_of c") auto
  qed
qed

theorem begin_word_invariant_witness:
  "(6::nat) < length (split_trace (''a '' @ [dquote] @ ''b'') initial) \<and>
   split_trace (''a '' @ [dquote] @ ''b'') initial ! 6 = (QUOTES, 4, Some 3, [''a'']) \<and>
   begin_word_of (split_trace (''a '' @ [dquote] @ ''b'') initial ! 6) \<noteq> None \<and>
   state_of (split_trace (''a '' @ [dquote] @ ''b'') initial ! (6 - 1)) = QUOTES \<and>
   begin_word_of (split_trace (''a '' @ [dquote] @ ''b'') initial ! 5) = None \<and>
   state_of (split_trace (''a '' @ [dquote] @ ''b'') initial ! (5 - 1)) = SPACE"
proof -
  have t: "split_trace (''a '' @ [dquote] @ ''b'') initial
           = [(SPACE, 0, None, []), (WORD, 0, None, []), (WORD, 1, Some 0, []),
              (SPACE, 1, None, [''a'']), (SPACE, 2, None, [''a'']),
              (QUOTES, 3, None, [''a'']), (QUOTES, 4, Some 3, [''a''])]"
    by code_simp
  have k: "(6::nat) < length (split_trace (''a '' @ [dquote] @ ''b'') initial)"
    unfolding t by simp
  have k': "(5::nat) < length (split_trace (''a '' @ [dquote] @ ''b'') initial)"
    unfolding t by simp
  show ?thesis
    using k begin_word_invariant [OF k refl] begin_word_invariant [OF k' refl]
    unfolding t by simp
qed

end
